theory Spec2Isabelle
  imports Main "HOL-Library.Sublist"
begin

section \<open>Data model\<close>

text \<open>
  The action characters of \<open>cdiff.cpp\<close> (lines 39--43). Only \<open>IGNORE\<close>, \<open>ADD\<close>,
  \<open>REMOVE\<close> and \<open>WILD\<close> are ever stored; \<open>SUBST\<close> is declared and unused.
\<close>

definition IGNORE :: char where "IGNORE = CHR ''=''"
definition ADD :: char where "ADD = CHR ''+''"
definition REMOVE :: char where "REMOVE = CHR ''-''"
definition SUBST :: char where "SUBST = CHR ''x''"
definition WILD :: char where "WILD = CHR ''%''"

text \<open>
  \<open>struct Move { char action; int n; std::string line; }\<close>. The fields carry the
  prefix \<open>m_\<close> so that \<open>n\<close> and \<open>line\<close> stay usable as variable names.
\<close>

record Move =
  m_action :: char
  m_n :: int
  m_line :: string

definition mk_Move :: "char \<Rightarrow> int \<Rightarrow> string \<Rightarrow> Move" where
  "mk_Move a k l = \<lparr>m_action = a, m_n = k, m_line = l\<rparr>"

text \<open>
  What the program can do besides returning: run into an \<open>assert(false)\<close>
  (\<open>Unreachable\<close>), or index a vector outside its bounds, which is undefined behaviour
  in C++ (\<open>OutOfRange\<close>).
\<close>

datatype error = Unreachable | OutOfRange

section \<open>The diff engine: \<open>edit_distance\<close>\<close>

text \<open>
  The two tables are vectors of vectors, written by index. Every index the program uses
  is shown below to be inside the table.
\<close>

type_synonym 'a table = "'a list list"

definition tab_get :: "'a table \<Rightarrow> nat \<Rightarrow> nat \<Rightarrow> 'a" where
  "tab_get t i j = t ! i ! j"

definition tab_set :: "'a table \<Rightarrow> nat \<Rightarrow> nat \<Rightarrow> 'a \<Rightarrow> 'a table" where
  "tab_set t i j v = t[i := (t ! i)[j := v]]"

type_synonym tables = "int table \<times> char table"

text \<open>Lines 59--64: allocation, and the cell \<open>[0][0]\<close>.\<close>

definition init_tables :: "nat \<Rightarrow> nat \<Rightarrow> tables" where
  "init_tables m1 m2 =
     (let distances = replicate (m1 + 1) (replicate (m2 + 1) (0::int));
          actions = replicate (m1 + 1) (replicate (m2 + 1) WILD)
      in (tab_set distances 0 0 0, tab_set actions 0 0 IGNORE))"

text \<open>Lines 66--69: the body of the loop over the first row.\<close>

definition first_row_step :: "nat \<Rightarrow> tables \<Rightarrow> tables" where
  "first_row_step j = (\<lambda>(distances, actions).
     (tab_set distances 0 j (int j), tab_set actions 0 j ADD))"

text \<open>Lines 71--74: the body of the loop over the first column.\<close>

definition first_col_step :: "nat \<Rightarrow> tables \<Rightarrow> tables" where
  "first_col_step i = (\<lambda>(distances, actions).
     (tab_set distances i 0 (int i), tab_set actions i 0 REMOVE))"

text \<open>Lines 78--102: the body of the inner loop, for the cell \<open>[i][j]\<close>.\<close>

definition cell_step :: "string list \<Rightarrow> string list \<Rightarrow> nat \<Rightarrow> nat \<Rightarrow> tables \<Rightarrow> tables" where
  "cell_step src dst i j = (\<lambda>(distances, actions).
     if src ! (i - 1) = dst ! (j - 1) then
       (tab_set distances i j (tab_get distances (i - 1) (j - 1)), tab_set actions i j IGNORE)
     else
       let remove = tab_get distances (i - 1) j;
           add = tab_get distances i (j - 1);
           distances = tab_set distances i j remove;
           actions = tab_set actions i j REMOVE;
           (distances, actions) =
             (if tab_get distances i j > add
              then (tab_set distances i j add, tab_set actions i j ADD)
              else (distances, actions))
       in (tab_set distances i j (tab_get distances i j + 1), actions))"

text \<open>Lines 66--104: the three loops, each a fold over its index range.\<close>

definition fill_tables :: "string list \<Rightarrow> string list \<Rightarrow> tables" where
  "fill_tables src dst =
     (let m1 = length src; m2 = length dst;
          t = init_tables m1 m2;
          t = fold first_row_step [1..<1 + m2] t;
          t = fold first_col_step [1..<1 + m1] t
      in fold (\<lambda>i. fold (cell_step src dst i) [1..<1 + m2]) [1..<1 + m1] t)"

text \<open>
  Lines 106--120: the walk back from \<open>[m1][m2]\<close>. The counters are \<open>int\<close>s and are
  decremented before they index \<open>dst\<close> or \<open>src\<close>; reading a vector at a negative
  index is the \<open>OutOfRange\<close> result here. The counters never grow, so they stay
  below the sizes of the tables. The patch is built by \<open>push_back\<close>.
\<close>

function backtrace ::
  "char table \<Rightarrow> string list \<Rightarrow> string list \<Rightarrow> int \<Rightarrow> int \<Rightarrow> Move list \<Rightarrow> error + Move list" where
  "backtrace actions src dst i j patch =
     (if i > 0 \<or> j > 0 then
        (if i < 0 \<or> j < 0 then Inl OutOfRange
         else
           let action = tab_get actions (nat i) (nat j) in
           if action = ADD then
             (let j = j - 1 in
              if j < 0 then Inl OutOfRange
              else backtrace actions src dst i j (patch @ [mk_Move ADD j (dst ! nat j)]))
           else if action = REMOVE then
             (let i = i - 1 in
              if i < 0 then Inl OutOfRange
              else backtrace actions src dst i j (patch @ [mk_Move REMOVE i (src ! nat i)]))
           else if action = IGNORE then
             backtrace actions src dst (i - 1) (j - 1) patch
           else Inl Unreachable)
      else Inr patch)"
  by pat_completeness auto
termination
  by (relation "measure (\<lambda>(actions, src, dst, i, j, patch). nat (i + j + 2))") auto

declare backtrace.simps [simp del]

text \<open>
  Lines 54--125. The sizes are read into \<open>int\<close> variables and the distances are
  \<open>int\<close>s; the model computes with unbounded integers, which is exact as long as
  \<open>length src + length dst\<close> is below \<open>2^31\<close>.
\<close>

definition edit_distance :: "string list \<Rightarrow> string list \<Rightarrow> error + Move list" where
  "edit_distance src dst =
     (let m1 = length src; m2 = length dst;
          (distances, actions) = fill_tables src dst
      in case backtrace actions src dst (int m1) (int m2) [] of
           Inl e \<Rightarrow> Inl e
         | Inr patch \<Rightarrow> Inr (rev patch))"

section \<open>Applying a patch: lines 280--295 of \<open>PatchSubcommand::run\<close>\<close>

text \<open>
  The comparator of \<open>std::sort\<close>. \<open>char\<close> is compared as the signed byte it is on the
  usual targets; for the 7-bit characters the order is that of the character codes
  either way.
\<close>

definition char_value :: "char \<Rightarrow> int" where
  "char_value c = (let k = (of_char c :: int) in if k < 128 then k else k - 256)"

definition move_less :: "Move \<Rightarrow> Move \<Rightarrow> bool" where
  "move_less p1 p2 =
     (if m_n p1 = m_n p2 then char_value (m_action p1) < char_value (m_action p2)
      else m_n p1 < m_n p2)"

text \<open>
  \<open>std::sort\<close> is modelled by insertion sort under the comparator. The order of records
  that the comparator does not separate (same \<open>n\<close>, same \<open>action\<close>) is not fixed by
  \<open>std::sort\<close>; where no two records share both, the sorted sequence is unique
  (\<open>sort_moves_unique\<close> below).
\<close>

fun insert_move :: "Move \<Rightarrow> Move list \<Rightarrow> Move list" where
  "insert_move p [] = [p]"
| "insert_move p (q # qs) = (if move_less q p then q # insert_move p qs else p # q # qs)"

fun sort_moves :: "Move list \<Rightarrow> Move list" where
  "sort_moves [] = []"
| "sort_moves (p # ps) = insert_move p (sort_moves ps)"

text \<open>\<open>lines1.erase(lines1.begin() + row)\<close> and \<open>lines1.insert(lines1.begin() + row, line)\<close>.\<close>

definition erase :: "string list \<Rightarrow> int \<Rightarrow> error + string list" where
  "erase lines1 row =
     (if 0 \<le> row \<and> row < int (length lines1)
      then Inr (take (nat row) lines1 @ drop (Suc (nat row)) lines1)
      else Inl OutOfRange)"

definition insert_at :: "string list \<Rightarrow> int \<Rightarrow> string \<Rightarrow> error + string list" where
  "insert_at lines1 row l =
     (if 0 \<le> row \<and> row \<le> int (length lines1)
      then Inr (take (nat row) lines1 @ [l] @ drop (nat row) lines1)
      else Inl OutOfRange)"

text \<open>Lines 287--295: the loop over the sorted and reversed patch.\<close>

fun apply_loop :: "Move list \<Rightarrow> string list \<Rightarrow> error + string list" where
  "apply_loop [] lines1 = Inr lines1"
| "apply_loop (p # ps) lines1 =
     (if m_action p = REMOVE then
        (case erase lines1 (m_n p) of Inl e \<Rightarrow> Inl e | Inr lines1' \<Rightarrow> apply_loop ps lines1')
      else if m_action p = ADD then
        (case insert_at lines1 (m_n p) (m_line p) of
           Inl e \<Rightarrow> Inl e | Inr lines1' \<Rightarrow> apply_loop ps lines1')
      else Inl Unreachable)"

text \<open>Lines 280--295.\<close>

definition apply_patch :: "string list \<Rightarrow> Move list \<Rightarrow> error + string list" where
  "apply_patch lines1 patch = apply_loop (rev (sort_moves patch)) lines1"

section \<open>The text form of a patch\<close>

subsection \<open>Writing: lines 209--218 of \<open>DiffSubcommand::run\<close>\<close>

definition digit_char :: "nat \<Rightarrow> char" where
  "digit_char k = char_of (48 + k)"

text \<open>The decimal digits of a natural number, most significant first.\<close>

function digits :: "nat \<Rightarrow> string" where
  "digits k = (if k < 10 then [digit_char k] else digits (k div 10) @ [digit_char (k mod 10)])"
  by pat_completeness auto
termination
  by (relation "measure id") auto

declare digits.simps [simp del]

text \<open>\<open>std::to_string(int)\<close>.\<close>

definition to_string :: "int \<Rightarrow> string" where
  "to_string k = (if k < 0 then CHR ''-'' # digits (nat (- k)) else digits (nat k))"

text \<open>One record: the action, a space, the position, a space, the line.\<close>

definition serialize_move :: "Move \<Rightarrow> string" where
  "serialize_move p = [m_action p] @ '' '' @ to_string (m_n p) @ '' '' @ m_line p"

text \<open>
  Lines 207--218: what the diff subcommand prints, one element per printed line
  (every record is followed by \<open>std::endl\<close>).
\<close>

definition diff_output :: "string list \<Rightarrow> string list \<Rightarrow> error + string list" where
  "diff_output lines1 lines2 =
     (case edit_distance lines1 lines2 of
        Inl e \<Rightarrow> Inl e
      | Inr patch \<Rightarrow> Inr (map serialize_move patch))"

subsection \<open>Reading: lines 249--278 of \<open>PatchSubcommand::run\<close>\<close>

text \<open>
  An input string stream: the characters not yet read, and whether the stream is still
  \<open>good()\<close> (neither \<open>failbit\<close> nor \<open>eofbit\<close> set). A formatted extraction on a
  stream that is not good leaves its target untouched.
\<close>

record istream =
  unread :: string
  good :: bool

definition isspace :: "char \<Rightarrow> bool" where
  "isspace c = (c = CHR '' '' \<or> (9 \<le> (of_char c :: nat) \<and> (of_char c :: nat) \<le> 13))"

definition isdigit :: "char \<Rightarrow> bool" where
  "isdigit c = (48 \<le> (of_char c :: nat) \<and> (of_char c :: nat) \<le> 57)"

definition INT_MAX :: int where "INT_MAX = 2147483647"
definition INT_MIN :: int where "INT_MIN = - 2147483648"

text \<open>
  \<open>iss >> record.action\<close>: leading white space is skipped, then one character is read.
  When only white space is left the extraction fails and the target keeps its value.
\<close>

definition get_char :: "istream \<Rightarrow> char \<Rightarrow> char \<times> istream" where
  "get_char iss a =
     (if \<not> good iss then (a, iss)
      else case dropWhile isspace (unread iss) of
             [] \<Rightarrow> (a, \<lparr>unread = [], good = False\<rparr>)
           | c # cs \<Rightarrow> (c, \<lparr>unread = cs, good = True\<rparr>))"

definition digits_value :: "string \<Rightarrow> int" where
  "digits_value ds = fold (\<lambda>c v. 10 * v + (of_char c - 48)) ds 0"

text \<open>
  \<open>iss >> record.n\<close>: leading white space is skipped; when nothing is left, the
  extraction fails before any conversion and the target keeps its value. Otherwise an
  optional sign and the longest run of decimal digits are converted: no digit stores
  \<open>0\<close> and fails, a value outside \<open>int\<close> stores the nearest bound and fails, and a
  conversion that reads up to the end of the stream leaves it at end of file.
\<close>

definition get_int :: "istream \<Rightarrow> int \<Rightarrow> int \<times> istream" where
  "get_int iss k =
     (if \<not> good iss then (k, iss)
      else case dropWhile isspace (unread iss) of
             [] \<Rightarrow> (k, \<lparr>unread = [], good = False\<rparr>)
           | c # cs \<Rightarrow>
               (let (neg, body) =
                      (if c = CHR ''-'' then (True, cs)
                       else if c = CHR ''+'' then (False, cs)
                       else (False, c # cs));
                    ds = takeWhile isdigit body;
                    rest = dropWhile isdigit body;
                    v = (if neg then - digits_value ds else digits_value ds)
                in if ds = [] then (0, \<lparr>unread = rest, good = False\<rparr>)
                   else if v > INT_MAX then (INT_MAX, \<lparr>unread = rest, good = False\<rparr>)
                   else if v < INT_MIN then (INT_MIN, \<lparr>unread = rest, good = False\<rparr>)
                   else (v, \<lparr>unread = rest, good = (rest \<noteq> [])\<rparr>)))"

text \<open>
  \<open>std::getline(iss, record.line)\<close>: on a stream that is not good the target keeps its
  value; otherwise the characters up to the first newline (or the end) are stored.
\<close>

definition getline :: "istream \<Rightarrow> string \<Rightarrow> string" where
  "getline iss l =
     (if \<not> good iss then l else takeWhile (\<lambda>c. c \<noteq> CHR 0x0A) (unread iss))"

text \<open>
  Line 272: \<open>if (record.line[0] == ' ') record.line.erase(record.line.begin())\<close>; on
  the empty string \<open>record.line[0]\<close> is the terminating null character.
\<close>

definition strip_separator :: "string \<Rightarrow> string" where
  "strip_separator l = (case l of [] \<Rightarrow> [] | c # cs \<Rightarrow> if c = CHR '' '' then cs else l)"

text \<open>
  The state of the reading loop: the flag \<open>ok\<close>, the patch read so far, and the lines
  printed on standard output.
\<close>

record reader =
  ok :: bool
  patch :: "Move list"
  printed :: "string list"

text \<open>
  Lines 253--273, the body of the loop for the line at index \<open>row\<close>. \<open>Move record;\<close>
  sets \<open>n\<close> to \<open>-1\<close>, \<open>line\<close> to the empty string, and leaves \<open>action\<close>
  uninitialised: \<open>u\<close> is the value it happens to hold.
\<close>

definition read_record :: "char \<Rightarrow> string \<Rightarrow> nat \<Rightarrow> string \<Rightarrow> reader \<Rightarrow> reader" where
  "read_record u patch_path row l st =
     (if length l = 0 then st
      else
        let iss = \<lparr>unread = l, good = True\<rparr>;
            record = mk_Move u (- 1) [];
            (a, iss) = get_char iss (m_action record);
            record = record\<lparr>m_action := a\<rparr>;
            (k, iss) = get_int iss (m_n record);
            record = record\<lparr>m_n := k\<rparr>
        in if m_action record \<noteq> ADD \<and> m_action record \<noteq> REMOVE \<and> m_n record \<noteq> - 1 then
             st\<lparr>printed := printed st @
                   [patch_path @ '':'' @ to_string (int row + 1) @ '': Invalid patch action: '' @ l],
                ok := False\<rparr>
           else
             let record = record\<lparr>m_line := getline iss (m_line record)\<rparr>;
                 record = record\<lparr>m_line := strip_separator (m_line record)\<rparr>
             in st\<lparr>patch := patch st @ [record]\<rparr>)"

text \<open>
  Lines 249--274: the loop over the lines of the patch file, from \<open>row\<close> on. \<open>u row\<close>
  is the uninitialised \<open>action\<close> of the record of that iteration.
\<close>

fun read_records :: "(nat \<Rightarrow> char) \<Rightarrow> string \<Rightarrow> nat \<Rightarrow> string list \<Rightarrow> reader \<Rightarrow> reader" where
  "read_records u patch_path row [] st = st"
| "read_records u patch_path row (l # ls) st =
     read_records u patch_path (Suc row) ls (read_record (u row) patch_path row l st)"

definition read_patch :: "(nat \<Rightarrow> char) \<Rightarrow> string \<Rightarrow> string list \<Rightarrow> reader" where
  "read_patch u patch_path lines2 =
     read_records u patch_path 0 lines2 \<lparr>ok = True, patch = [], printed = []\<rparr>"

section \<open>The patch subcommand\<close>

text \<open>
  What a run leaves behind: the return value, the lines printed, and the lines written
  to the output file, if the run got that far.
\<close>

record outcome =
  returned :: int
  stdout :: "string list"
  written :: "string list option"

text \<open>
  Lines 246--303 of \<open>PatchSubcommand::run\<close>, from the two files already read:
  \<open>lines1\<close> the file to patch, \<open>lines2\<close> the patch file.
\<close>

definition patch_run ::
  "(nat \<Rightarrow> char) \<Rightarrow> string \<Rightarrow> string list \<Rightarrow> string list \<Rightarrow> error + outcome" where
  "patch_run u patch_path lines1 lines2 =
     (let st = read_patch u patch_path lines2
      in if \<not> ok st then Inr \<lparr>returned = - 1, stdout = printed st, written = None\<rparr>
         else case apply_patch lines1 (patch st) of
                Inl e \<Rightarrow> Inl e
              | Inr lines1' \<Rightarrow>
                  Inr \<lparr>returned = 0, stdout = printed st @ lines1', written = Some lines1'\<rparr>)"

section \<open>Reference notions\<close>

text \<open>
  The classic recursive edit distance with insertion and deletion only: the function
  \<open>ref::lev\<close> of the source (lines 133--145), without its memo table and without the
  \<open>replace\<close> alternative.
\<close>

fun lev :: "'a list \<Rightarrow> 'a list \<Rightarrow> nat" where
  "lev [] dst = length dst"
| "lev src [] = length src"
| "lev (x # src) (y # dst) =
     (if x = y then lev src dst
      else 1 + min (lev src (y # dst)) (lev (x # src) dst))"

text \<open>
  What the loops of \<open>edit_distance\<close> leave in the cell \<open>[i][j]\<close> of the two tables,
  as recursive functions of the indices; the proofs below relate the tables to them.
\<close>

fun cost :: "string list \<Rightarrow> string list \<Rightarrow> nat \<Rightarrow> nat \<Rightarrow> int" where
  "cost src dst 0 j = int j"
| "cost src dst (Suc i) 0 = int (Suc i)"
| "cost src dst (Suc i) (Suc j) =
     (if src ! i = dst ! j then cost src dst i j
      else (if cost src dst i (Suc j) > cost src dst (Suc i) j
            then cost src dst (Suc i) j else cost src dst i (Suc j)) + 1)"

fun tag :: "string list \<Rightarrow> string list \<Rightarrow> nat \<Rightarrow> nat \<Rightarrow> char" where
  "tag src dst 0 0 = IGNORE"
| "tag src dst 0 (Suc j) = ADD"
| "tag src dst (Suc i) 0 = REMOVE"
| "tag src dst (Suc i) (Suc j) =
     (if src ! i = dst ! j then IGNORE
      else if cost src dst i (Suc j) > cost src dst (Suc i) j then ADD else REMOVE)"

text \<open>The moves met on the way back from the cell \<open>[i][j]\<close>, last move first.\<close>

function walk :: "string list \<Rightarrow> string list \<Rightarrow> nat \<Rightarrow> nat \<Rightarrow> Move list" where
  "walk src dst 0 0 = []"
| "walk src dst 0 (Suc j) = mk_Move ADD (int j) (dst ! j) # walk src dst 0 j"
| "walk src dst (Suc i) 0 = mk_Move REMOVE (int i) (src ! i) # walk src dst i 0"
| "walk src dst (Suc i) (Suc j) =
     (if tag src dst (Suc i) (Suc j) = ADD
      then mk_Move ADD (int j) (dst ! j) # walk src dst (Suc i) j
      else if tag src dst (Suc i) (Suc j) = REMOVE
      then mk_Move REMOVE (int i) (src ! i) # walk src dst i (Suc j)
      else walk src dst i j)"
  by pat_completeness auto
termination
  by (relation "measure (\<lambda>(src, dst, i, j). i + j)") auto

text \<open>A table of \<open>r\<close> rows of \<open>c\<close> cells each.\<close>

definition shape :: "'a table \<Rightarrow> nat \<Rightarrow> nat \<Rightarrow> bool" where
  "shape t r c = (length t = r \<and> (\<forall>k<r. length (t ! k) = c))"

text \<open>
  The tables have their allocated shape, and hold in every cell selected by \<open>P\<close> what
  \<open>cost\<close> and \<open>tag\<close> say.
\<close>

definition agree :: "string list \<Rightarrow> string list \<Rightarrow> (nat \<Rightarrow> nat \<Rightarrow> bool) \<Rightarrow> tables \<Rightarrow> bool" where
  "agree src dst P t =
     (case t of (distances, actions) \<Rightarrow>
        shape distances (length src + 1) (length dst + 1) \<and>
        shape actions (length src + 1) (length dst + 1) \<and>
        (\<forall>i j. i \<le> length src \<longrightarrow> j \<le> length dst \<longrightarrow> P i j \<longrightarrow>
           tab_get distances i j = cost src dst i j \<and> tab_get actions i j = tag src dst i j))"

text \<open>
  The comparator of the sort as a single integer key: \<open>move_less p q\<close> holds exactly when
  the key of \<open>p\<close> is below the key of \<open>q\<close>.
\<close>

definition move_key :: "Move \<Rightarrow> int" where
  "move_key p = m_n p * 256 + (char_value (m_action p) + 128)"

section \<open>The tables after the loops\<close>

lemma tab_get_set:
  "shape t r c \<Longrightarrow> i < r \<Longrightarrow> j < c \<Longrightarrow>
   tab_get (tab_set t i j v) i' j' = (if i' = i \<and> j' = j then v else tab_get t i' j')"
  by (auto simp: shape_def tab_get_def tab_set_def nth_list_update)

lemma shape_tab_set: "shape t r c \<Longrightarrow> shape (tab_set t i j v) r c"
  by (cases "i < length t") (auto simp: shape_def tab_set_def nth_list_update)

lemma tab_set_twice:
  "shape t r c \<Longrightarrow> i < r \<Longrightarrow> tab_set (tab_set t i j v) i j w = tab_set t i j w"
  by (simp add: shape_def tab_set_def)

lemma shape_replicate: "shape (replicate r (replicate c v)) r c"
  by (simp add: shape_def)

lemma tab_get_replicate: "i < r \<Longrightarrow> j < c \<Longrightarrow> tab_get (replicate r (replicate c v)) i j = v"
  by (simp add: tab_get_def)

lemma agree_set:
  assumes "agree src dst P (d, a)"
    and "i \<le> length src" and "j \<le> length dst"
    and "v = cost src dst i j" and "c = tag src dst i j"
    and "\<And>i' j'. Q i' j' \<Longrightarrow> P i' j' \<or> (i' = i \<and> j' = j)"
  shows "agree src dst Q (tab_set d i j v, tab_set a i j c)"
  using assms
  by (auto simp: agree_def shape_tab_set tab_get_set [where r = "length src + 1" and c = "length dst + 1"])

lemma agree_blank:
  "agree src dst (\<lambda>i j. False)
     (replicate (length src + 1) (replicate (length dst + 1) v),
      replicate (length src + 1) (replicate (length dst + 1) w))"
  unfolding agree_def by (simp only: shape_replicate prod.case) simp

lemma agree_init:
  "agree src dst (\<lambda>i j. i = 0 \<and> j = 0) (init_tables (length src) (length dst))"
  unfolding init_tables_def Let_def
  by (rule agree_set [OF agree_blank]) auto

lemma fold_upt_1_Suc: "fold f [1..<1 + Suc b] s = f (Suc b) (fold f [1..<1 + b] s)"
  by simp

lemma fold_upt_1_0: "fold f [1..<1 + 0] s = s"
  by simp

lemma agree_first_row:
  "b \<le> length dst \<Longrightarrow>
   agree src dst (\<lambda>i j. i = 0 \<and> j \<le> b)
     (fold first_row_step [1..<1 + b] (init_tables (length src) (length dst)))"
proof (induction b)
  case 0
  have "agree src dst (\<lambda>i j. i = 0 \<and> j \<le> 0) (init_tables (length src) (length dst))"
    using agree_init [of src dst] by simp
  then show ?case by (simp only: fold_upt_1_0)
next
  case (Suc b)
  obtain d a where t: "fold first_row_step [1..<1 + b] (init_tables (length src) (length dst)) = (d, a)"
    by (cases "fold first_row_step [1..<1 + b] (init_tables (length src) (length dst))")
  from Suc have ag: "agree src dst (\<lambda>i j. i = 0 \<and> j \<le> b) (d, a)"
    unfolding t by simp
  have "agree src dst (\<lambda>i j. i = 0 \<and> j \<le> Suc b) (tab_set d 0 (Suc b) (int (Suc b)), tab_set a 0 (Suc b) ADD)"
    by (rule agree_set [OF ag]) (use Suc.prems in \<open>auto simp: le_Suc_eq\<close>)
  then show ?case
    unfolding fold_upt_1_Suc t by (simp add: first_row_step_def)
qed

lemma agree_first_col:
  assumes "agree src dst (\<lambda>i j. i = 0) t"
  shows "b \<le> length src \<Longrightarrow>
   agree src dst (\<lambda>i j. i = 0 \<or> (j = 0 \<and> i \<le> b)) (fold first_col_step [1..<1 + b] t)"
proof (induction b)
  case 0
  have "agree src dst (\<lambda>i j. i = 0 \<or> (j = 0 \<and> i \<le> 0)) t"
    using assms by (auto simp: agree_def)
  then show ?case by (simp only: fold_upt_1_0)
next
  case (Suc b)
  obtain d a where t: "fold first_col_step [1..<1 + b] t = (d, a)"
    by (cases "fold first_col_step [1..<1 + b] t")
  from Suc have ag: "agree src dst (\<lambda>i j. i = 0 \<or> (j = 0 \<and> i \<le> b)) (d, a)"
    unfolding t by simp
  have "agree src dst (\<lambda>i j. i = 0 \<or> (j = 0 \<and> i \<le> Suc b))
          (tab_set d (Suc b) 0 (int (Suc b)), tab_set a (Suc b) 0 REMOVE)"
    by (rule agree_set [OF ag]) (use Suc.prems in \<open>auto simp: le_Suc_eq\<close>)
  then show ?case
    unfolding fold_upt_1_Suc t by (simp add: first_col_step_def)
qed

lemma agree_weaken:
  "agree src dst P t \<Longrightarrow> (\<And>i j. i \<le> length src \<Longrightarrow> j \<le> length dst \<Longrightarrow> Q i j \<Longrightarrow> P i j) \<Longrightarrow>
   agree src dst Q t"
  by (auto simp: agree_def)

lemma cell_step_eq:
  assumes "shape d r c" and "shape a r c" and "i < r" and "j < c"
  shows "cell_step src dst i j (d, a) =
     (if src ! (i - 1) = dst ! (j - 1)
      then (tab_set d i j (tab_get d (i - 1) (j - 1)), tab_set a i j IGNORE)
      else if tab_get d (i - 1) j > tab_get d i (j - 1)
      then (tab_set d i j (tab_get d i (j - 1) + 1), tab_set a i j ADD)
      else (tab_set d i j (tab_get d (i - 1) j + 1), tab_set a i j REMOVE))"
  using assms
  by (simp add: cell_step_def Let_def tab_get_set [where r = r and c = c] shape_tab_set
      tab_set_twice [where r = r and c = c])

lemma agree_cell_step:
  assumes ag: "agree src dst P t"
    and i: "0 < i" "i \<le> length src" and j: "0 < j" "j \<le> length dst"
    and P: "P (i - 1) (j - 1)" "P (i - 1) j" "P i (j - 1)"
    and Q: "\<And>i' j'. Q i' j' \<Longrightarrow> P i' j' \<or> (i' = i \<and> j' = j)"
  shows "agree src dst Q (cell_step src dst i j t)"
proof -
  obtain d a where t: "t = (d, a)" by (cases t)
  obtain i0 j0 where ij: "i = Suc i0" "j = Suc j0"
    using i j by (metis Suc_pred)
  have sh: "shape d (length src + 1) (length dst + 1)" "shape a (length src + 1) (length dst + 1)"
    using ag by (auto simp: agree_def t)
  have g: "tab_get d i0 j0 = cost src dst i0 j0" "tab_get d i0 j = cost src dst i0 j"
    "tab_get d i j0 = cost src dst i j0"
    using ag P i j by (auto simp: agree_def t ij)
  have eq: "cell_step src dst i j (d, a) =
     (if src ! (i - 1) = dst ! (j - 1)
      then (tab_set d i j (tab_get d (i - 1) (j - 1)), tab_set a i j IGNORE)
      else if tab_get d (i - 1) j > tab_get d i (j - 1)
      then (tab_set d i j (tab_get d i (j - 1) + 1), tab_set a i j ADD)
      else (tab_set d i j (tab_get d (i - 1) j + 1), tab_set a i j REMOVE))"
    by (rule cell_step_eq [OF sh]) (use i j in auto)
  show ?thesis
    unfolding t eq
    using g Q i j
    by (auto intro!: agree_set [OF ag [unfolded t]] simp: ij)
qed


lemma agree_inner:
  assumes ag: "agree src dst (\<lambda>i' j'. i' = 0 \<or> j' = 0 \<or> i' < i) t"
    and i: "0 < i" "i \<le> length src"
  shows "b \<le> length dst \<Longrightarrow>
    agree src dst (\<lambda>i' j'. i' = 0 \<or> j' = 0 \<or> i' < i \<or> (i' = i \<and> j' \<le> b))
      (fold (cell_step src dst i) [1..<1 + b] t)"
proof (induction b)
  case 0
  have "agree src dst (\<lambda>i' j'. i' = 0 \<or> j' = 0 \<or> i' < i \<or> (i' = i \<and> j' \<le> 0)) t"
    by (rule agree_weaken [OF ag]) auto
  then show ?case by (simp only: fold_upt_1_0)
next
  case (Suc b)
  from Suc have ih: "agree src dst (\<lambda>i' j'. i' = 0 \<or> j' = 0 \<or> i' < i \<or> (i' = i \<and> j' \<le> b))
      (fold (cell_step src dst i) [1..<1 + b] t)"
    by simp
  show ?case
    unfolding fold_upt_1_Suc
    by (rule agree_cell_step [OF ih]) (use i Suc.prems in \<open>auto simp: le_Suc_eq\<close>)
qed

lemma agree_outer:
  assumes ag: "agree src dst (\<lambda>i' j'. i' = 0 \<or> j' = 0) t"
  shows "a \<le> length src \<Longrightarrow>
    agree src dst (\<lambda>i' j'. i' = 0 \<or> j' = 0 \<or> i' \<le> a)
      (fold (\<lambda>i. fold (cell_step src dst i) [1..<1 + length dst]) [1..<1 + a] t)"
proof (induction a)
  case 0
  have "agree src dst (\<lambda>i' j'. i' = 0 \<or> j' = 0 \<or> i' \<le> 0) t"
    by (rule agree_weaken [OF ag]) auto
  then show ?case by (simp only: fold_upt_1_0)
next
  case (Suc a)
  let ?t = "fold (\<lambda>i. fold (cell_step src dst i) [1..<1 + length dst]) [1..<1 + a] t"
  from Suc have "agree src dst (\<lambda>i' j'. i' = 0 \<or> j' = 0 \<or> i' \<le> a) ?t"
    by simp
  then have ih: "agree src dst (\<lambda>i' j'. i' = 0 \<or> j' = 0 \<or> i' < Suc a) ?t"
    by (rule agree_weaken) auto
  have "agree src dst (\<lambda>i' j'. i' = 0 \<or> j' = 0 \<or> i' < Suc a \<or> (i' = Suc a \<and> j' \<le> length dst))
          (fold (cell_step src dst (Suc a)) [1..<1 + length dst] ?t)"
    by (rule agree_inner [OF ih]) (use Suc.prems in auto)
  then have "agree src dst (\<lambda>i' j'. i' = 0 \<or> j' = 0 \<or> i' \<le> Suc a)
          (fold (cell_step src dst (Suc a)) [1..<1 + length dst] ?t)"
    by (rule agree_weaken) (auto simp: le_Suc_eq)
  then show ?case
    unfolding fold_upt_1_Suc .
qed

lemma agree_fill_tables: "agree src dst (\<lambda>i j. True) (fill_tables src dst)"
proof -
  let ?t1 = "fold first_row_step [1..<1 + length dst] (init_tables (length src) (length dst))"
  let ?t2 = "fold first_col_step [1..<1 + length src] ?t1"
  have "agree src dst (\<lambda>i j. i = 0 \<and> j \<le> length dst) ?t1"
    by (rule agree_first_row) simp
  then have "agree src dst (\<lambda>i j. i = 0) ?t1"
    by (rule agree_weaken) auto
  then have "agree src dst (\<lambda>i j. i = 0 \<or> (j = 0 \<and> i \<le> length src)) ?t2"
    by (rule agree_first_col) simp
  then have "agree src dst (\<lambda>i j. i = 0 \<or> j = 0) ?t2"
    by (rule agree_weaken) auto
  then have "agree src dst (\<lambda>i' j'. i' = 0 \<or> j' = 0 \<or> i' \<le> length src)
      (fold (\<lambda>i. fold (cell_step src dst i) [1..<1 + length dst]) [1..<1 + length src] ?t2)"
    by (rule agree_outer) simp
  then have "agree src dst (\<lambda>i j. True)
      (fold (\<lambda>i. fold (cell_step src dst i) [1..<1 + length dst]) [1..<1 + length src] ?t2)"
    by (rule agree_weaken) auto
  then show ?thesis
    unfolding fill_tables_def Let_def .
qed

lemma fill_tables_cells:
  assumes "fill_tables src dst = (distances, actions)" and "i \<le> length src" and "j \<le> length dst"
  shows "tab_get distances i j = cost src dst i j" and "tab_get actions i j = tag src dst i j"
  using agree_fill_tables [of src dst] assms by (auto simp: agree_def)

lemma actions_distinct: "ADD \<noteq> REMOVE" "ADD \<noteq> IGNORE" "REMOVE \<noteq> IGNORE"
  "REMOVE \<noteq> ADD" "IGNORE \<noteq> ADD" "IGNORE \<noteq> REMOVE"
  by (simp_all add: ADD_def REMOVE_def IGNORE_def)

lemma tag_cases: "tag src dst i j = ADD \<or> tag src dst i j = REMOVE \<or> tag src dst i j = IGNORE"
  by (induction src dst i j rule: tag.induct) auto

lemma backtrace_walk:
  "(\<forall>i j. i \<le> length src \<longrightarrow> j \<le> length dst \<longrightarrow> tab_get actions i j = tag src dst i j) \<Longrightarrow>
   i \<le> length src \<Longrightarrow> j \<le> length dst \<Longrightarrow>
   backtrace actions src dst (int i) (int j) acc = Inr (acc @ walk src dst i j)"
proof (induction src dst i j arbitrary: acc rule: walk.induct)
  case (1 src dst)
  then show ?case by (simp add: backtrace.simps)
next
  case (2 src dst j)
  have s: "int (Suc j) - 1 = int j" by simp
  from 2 show ?case
    by (subst backtrace.simps) (simp add: actions_distinct Let_def s del: of_nat_Suc)
next
  case (3 src dst i)
  have s: "int (Suc i) - 1 = int i" by simp
  from 3 show ?case
    by (subst backtrace.simps) (simp add: actions_distinct Let_def s del: of_nat_Suc)
next
  case (4 src dst i j)
  have t: "tab_get actions (Suc i) (Suc j) = tag src dst (Suc i) (Suc j)"
    using 4 by blast
  have s: "int (Suc i) - 1 = int i" "int (Suc j) - 1 = int j" by simp_all
  consider (A) "tag src dst (Suc i) (Suc j) = ADD" | (R) "tag src dst (Suc i) (Suc j) = REMOVE"
    | (I) "tag src dst (Suc i) (Suc j) = IGNORE"
    using tag_cases by blast
  then show ?case
  proof cases
    case A
    then show ?thesis
      using 4 by (subst backtrace.simps)
        (simp add: t actions_distinct Let_def s del: tag.simps of_nat_Suc)
  next
    case R
    then show ?thesis
      using 4 by (subst backtrace.simps)
        (simp add: t actions_distinct Let_def s del: tag.simps of_nat_Suc)
  next
    case I
    then show ?thesis
      using 4 by (subst backtrace.simps)
        (simp add: t actions_distinct Let_def s del: tag.simps of_nat_Suc)
  qed
qed

lemma edit_distance_walk:
  "edit_distance src dst = Inr (rev (walk src dst (length src) (length dst)))"
proof -
  obtain distances actions where f: "fill_tables src dst = (distances, actions)"
    by (cases "fill_tables src dst")
  have "backtrace actions src dst (int (length src)) (int (length dst)) [] =
      Inr ([] @ walk src dst (length src) (length dst))"
    by (rule backtrace_walk) (use fill_tables_cells [OF f] in auto)
  then show ?thesis
    by (simp add: edit_distance_def f)
qed

section \<open>The distance in the last cell\<close>

lemma lev_Nil2 [simp]: "lev xs [] = length xs"
  by (cases xs) auto

lemma cost_0 [simp]: "cost src dst i 0 = int i"
  by (cases i) auto

lemma subseq_tl: "subseq zs (x # xs) \<Longrightarrow> subseq (tl zs) xs"
  by (cases zs) (auto simp: subseq_Cons' split: if_splits)

lemma lev_le_common:
  "subseq zs xs \<Longrightarrow> subseq zs ys \<Longrightarrow> lev xs ys + 2 * length zs \<le> length xs + length ys"
proof (induction xs ys arbitrary: zs rule: lev.induct)
  case (1 dst)
  then show ?case by simp
next
  case (2 v va)
  then show ?case by simp
next
  case (3 x src y dst)
  show ?case
  proof (cases "x = y")
    case True
    have "lev src dst + 2 * length (tl zs) \<le> length src + length dst"
      using 3 True by (intro "3.IH"(1)) (auto intro: subseq_tl)
    moreover have "length zs \<le> length (tl zs) + 1" by simp
    ultimately show ?thesis using True by simp
  next
    case False
    have "subseq zs src \<or> subseq zs dst"
      using "3.prems" False by (cases zs) (auto split: if_splits)
    then show ?thesis
    proof
      assume s: "subseq zs src"
      have "lev src (y # dst) + 2 * length zs \<le> length src + length (y # dst)"
        using False s "3.prems" by (intro "3.IH"(2)) auto
      then show ?thesis using False by simp
    next
      assume s: "subseq zs dst"
      have "lev (x # src) dst + 2 * length zs \<le> length (x # src) + length dst"
        using False s "3.prems" by (intro "3.IH"(3)) auto
      then show ?thesis using False by simp
    qed
  qed
qed

lemma lev_common_attained:
  "\<exists>zs. subseq zs xs \<and> subseq zs ys \<and> lev xs ys + 2 * length zs = length xs + length ys"
proof (induction xs ys rule: lev.induct)
  case (1 dst)
  show ?case by (rule exI [of _ "[]"]) simp
next
  case (2 v va)
  show ?case by (rule exI [of _ "[]"]) simp
next
  case (3 x src y dst)
  show ?case
  proof (cases "x = y")
    case True
    with 3 obtain zs where "subseq zs src" "subseq zs dst"
      "lev src dst + 2 * length zs = length src + length dst" by auto
    then show ?thesis using True by (intro exI [of _ "x # zs"]) simp
  next
    case False
    show ?thesis
    proof (cases "lev src (y # dst) \<le> lev (x # src) dst")
      case le: True
      from 3 False obtain zs where "subseq zs src" "subseq zs (y # dst)"
        "lev src (y # dst) + 2 * length zs = length src + length (y # dst)" by auto
      then show ?thesis using False le by (intro exI [of _ zs]) (simp add: min_def list_emb_Cons)
    next
      case gt: False
      from 3 False obtain zs where "subseq zs (x # src)" "subseq zs dst"
        "lev (x # src) dst + 2 * length zs = length (x # src) + length dst" by auto
      then show ?thesis using False gt by (intro exI [of _ zs]) (simp add: min_def list_emb_Cons)
    qed
  qed
qed

lemma subseq_rev: "subseq xs ys \<Longrightarrow> subseq (rev xs) (rev ys)"
proof (induction rule: list_emb.induct)
  case (list_emb_Nil ys)
  then show ?case by simp
next
  case (list_emb_Cons xs ys y)
  then show ?case by (simp add: subseq_rev_drop_many)
next
  case (list_emb_Cons2 x y xs ys)
  then show ?case by (simp add: list_emb_append_mono)
qed

lemma lev_rev_le: "lev (rev xs) (rev ys) \<le> lev xs ys"
proof -
  obtain zs where zs: "subseq zs xs" "subseq zs ys"
    "lev xs ys + 2 * length zs = length xs + length ys"
    using lev_common_attained by blast
  have "lev (rev xs) (rev ys) + 2 * length (rev zs) \<le> length (rev xs) + length (rev ys)"
    by (rule lev_le_common) (use zs in \<open>auto intro: subseq_rev\<close>)
  with zs(3) show ?thesis by simp
qed

lemma lev_rev: "lev (rev xs) (rev ys) = lev xs ys"
  using lev_rev_le [of xs ys] lev_rev_le [of "rev xs" "rev ys"] by simp

lemma cost_lev:
  "i \<le> length src \<Longrightarrow> j \<le> length dst \<Longrightarrow>
   cost src dst i j = int (lev (rev (take i src)) (rev (take j dst)))"
proof (induction src dst i j rule: cost.induct)
  case (1 src dst j)
  then show ?case by simp
next
  case (2 src dst i)
  then show ?case by simp
next
  case (3 src dst i j)
  then have t: "take (Suc i) src = take i src @ [src ! i]" "take (Suc j) dst = take j dst @ [dst ! j]"
    by (simp_all add: take_Suc_conv_app_nth)
  show ?case
  proof (cases "src ! i = dst ! j")
    case True
    have "cost src dst i j = int (lev (rev (take i src)) (rev (take j dst)))"
      by (rule "3.IH"(1) [OF True]) (use "3.prems" in auto)
    then show ?thesis using True by (simp add: t)
  next
    case False
    have "cost src dst (Suc i) j = int (lev (rev (take (Suc i) src)) (rev (take j dst)))"
      by (rule "3.IH"(2) [OF False]) (use "3.prems" in auto)
    moreover have "cost src dst i (Suc j) = int (lev (rev (take i src)) (rev (take (Suc j) dst)))"
      by (rule "3.IH"(3) [OF False]) (use "3.prems" in auto)
    ultimately show ?thesis using False by (simp add: t min_def)
  qed
qed

lemma cost_final: "cost src dst (length src) (length dst) = int (lev src dst)"
  by (simp add: cost_lev lev_rev)

lemma walk_length: "int (length (walk src dst i j)) = cost src dst i j"
  by (induction src dst i j rule: walk.induct) (auto simp: actions_distinct)

lemma walk_actions: "p \<in> set (walk src dst i j) \<Longrightarrow> m_action p = ADD \<or> m_action p = REMOVE"
  by (induction src dst i j rule: walk.induct) (auto simp: mk_Move_def split: if_splits)

section \<open>The patch that \<open>edit_distance\<close> returns\<close>

lemma walk_first_row: "rev (walk [] D 0 j) = map (\<lambda>j. mk_Move ADD (int j) (D ! j)) [0..<j]"
  by (induction j) auto

lemma walk_first_col: "rev (walk S [] i 0) = map (\<lambda>i. mk_Move REMOVE (int i) (S ! i)) [0..<i]"
  by (induction i) auto

lemma walk_diagonal: "walk S S i i = []"
  by (induction i) (auto simp: actions_distinct)

lemma walk_bounds:
  "p \<in> set (walk src dst i j) \<Longrightarrow>
   (m_action p = ADD \<longrightarrow> 0 \<le> m_n p \<and> m_n p < int j \<and> m_line p = dst ! nat (m_n p)) \<and>
   (m_action p = REMOVE \<longrightarrow> 0 \<le> m_n p \<and> m_n p < int i \<and> m_line p = src ! nat (m_n p))"
  by (induction src dst i j rule: walk.induct)
    (auto simp: mk_Move_def actions_distinct split: if_splits)

lemma walk_descending:
  "sorted_wrt (>) (map m_n (filter (\<lambda>m. m_action m = ADD) (walk src dst i j))) \<and>
   sorted_wrt (>) (map m_n (filter (\<lambda>m. m_action m = REMOVE) (walk src dst i j)))"
proof (induction src dst i j rule: walk.induct)
  case (1 src dst)
  then show ?case by simp
next
  case (2 src dst j)
  then show ?case using walk_bounds [of _ src dst 0 j]
    by (auto simp: mk_Move_def actions_distinct)
next
  case (3 src dst i)
  then show ?case using walk_bounds [of _ src dst i 0]
    by (auto simp: mk_Move_def actions_distinct)
next
  case (4 src dst i j)
  then show ?case
    using walk_bounds [of _ src dst "Suc i" j] walk_bounds [of _ src dst i "Suc j"]
    by (auto simp: mk_Move_def actions_distinct simp del: tag.simps)
qed

lemma sorted_wrt_rev_gt: "sorted_wrt (<) (rev xs) = sorted_wrt (>) (xs :: int list)"
  by (induction xs) (auto simp: sorted_wrt_append)

section \<open>Writing a record and reading it back\<close>

lemma isdigit_digit_char: "k < 10 \<Longrightarrow> isdigit (digit_char k)"
  by (simp add: isdigit_def digit_char_def)

lemma of_char_digit_char: "k < 10 \<Longrightarrow> (of_char (digit_char k) :: int) = 48 + int k"
proof -
  assume k: "k < 10"
  have "(of_char (digit_char k) :: int) = int (of_char (digit_char k))"
    by (rule of_nat_of_char [symmetric])
  also have "(of_char (digit_char k) :: nat) = 48 + k"
    using k by (simp add: digit_char_def)
  finally show ?thesis by simp
qed

lemma digits_nonempty: "digits k \<noteq> []"
  by (subst digits.simps) simp

lemma digits_isdigit: "c \<in> set (digits k) \<Longrightarrow> isdigit c"
proof (induction k rule: digits.induct)
  case (1 k)
  then show ?case
    by (subst (asm) (2) digits.simps) (auto simp: isdigit_digit_char split: if_splits)
qed

lemma digits_value_snoc: "digits_value (ds @ [c]) = 10 * digits_value ds + (of_char c - 48)"
  by (simp add: digits_value_def)

lemma digits_value_digits: "digits_value (digits k) = int k"
proof (induction k rule: digits.induct)
  case (1 k)
  show ?case
  proof (cases "k < 10")
    case True
    then show ?thesis
      by (subst digits.simps) (simp add: digits_value_def of_char_digit_char)
  next
    case False
    then have "digits_value (digits (k div 10)) = int (k div 10)"
      using 1 by simp
    moreover have "10 * int (k div 10) + int (k mod 10) = int k"
      by presburger
    ultimately show ?thesis
      using False by (subst digits.simps) (simp add: digits_value_snoc of_char_digit_char)
  qed
qed

lemma isdigit_not_space: "isdigit c \<Longrightarrow> \<not> isspace c"
  by (auto simp: isdigit_def isspace_def)

lemma isdigit_not_sign: "isdigit c \<Longrightarrow> c \<noteq> CHR ''-'' \<and> c \<noteq> CHR ''+''"
  by (auto simp: isdigit_def)

lemma space_props: "isspace CHR '' ''" "\<not> isdigit CHR '' ''"
  by (simp_all add: isspace_def isdigit_def)

lemma to_string_nonneg: "0 \<le> k \<Longrightarrow> to_string k = digits (nat k)"
  by (simp add: to_string_def)

lemma get_int_position:
  assumes "0 \<le> k" and "k \<le> INT_MAX"
  shows "get_int \<lparr>unread = '' '' @ to_string k @ '' '' @ l, good = True\<rparr> k0 =
           (k, \<lparr>unread = '' '' @ l, good = True\<rparr>)"
proof -
  obtain c cs where d: "digits (nat k) = c # cs"
    using digits_nonempty [of "nat k"] by (cases "digits (nat k)") auto
  have c: "isdigit c"
    using digits_isdigit [of c "nat k"] d by simp
  have all: "\<And>x. x \<in> set (c # cs) \<Longrightarrow> isdigit x"
    using digits_isdigit [of _ "nat k"] d by simp
  have tw: "takeWhile isdigit ((c # cs) @ CHR '' '' # l) = c # cs"
    using all by (subst takeWhile_append2) (auto simp: space_props)
  have dw: "dropWhile isdigit ((c # cs) @ CHR '' '' # l) = CHR '' '' # l"
    using all by (subst dropWhile_append2) (auto simp: space_props)
  have v: "digits_value (c # cs) = k"
    using digits_value_digits [of "nat k"] assms(1) by (simp add: d)
  have k: "\<not> k < INT_MIN"
    using assms(1) by (simp add: INT_MIN_def)
  show ?thesis
    using c tw dw v assms(2) k isdigit_not_space [OF c] isdigit_not_sign [OF c]
    by (simp add: get_int_def to_string_nonneg [OF assms(1)] d space_props Let_def)
qed

lemma get_char_action:
  "\<not> isspace a \<Longrightarrow> get_char \<lparr>unread = a # cs, good = True\<rparr> a0 = (a, \<lparr>unread = cs, good = True\<rparr>)"
  by (simp add: get_char_def)

lemma getline_content:
  "CHR 0x0A \<notin> set l \<Longrightarrow>
   strip_separator (getline \<lparr>unread = '' '' @ l, good = True\<rparr> l0) = l"
proof -
  assume "CHR 0x0A \<notin> set l"
  then have "takeWhile (\<lambda>c. c \<noteq> CHR 0x0A) l = l"
    by auto
  then show ?thesis
    by (simp add: getline_def strip_separator_def)
qed

lemma read_record_format:
  assumes "\<not> isspace a" and "0 \<le> k" and "k \<le> INT_MAX" and "CHR 0x0A \<notin> set c"
  shows "read_record u path row ([a] @ '' '' @ to_string k @ '' '' @ c) st =
     (if a = ADD \<or> a = REMOVE then st\<lparr>patch := patch st @ [mk_Move a k c]\<rparr>
      else st\<lparr>printed := printed st @
                 [path @ '':'' @ to_string (int row + 1) @ '': Invalid patch action: '' @
                  ([a] @ '' '' @ to_string k @ '' '' @ c)],
              ok := False\<rparr>)"
proof -
  have gi: "get_int \<lparr>unread = CHR '' '' # to_string k @ CHR '' '' # c, good = True\<rparr> (- 1) =
           (k, \<lparr>unread = CHR '' '' # c, good = True\<rparr>)"
    using get_int_position [OF assms(2,3), of c "- 1"] by simp
  have gl: "strip_separator (getline \<lparr>unread = CHR '' '' # c, good = True\<rparr> []) = c"
    using getline_content [OF assms(4), of "[]"] by simp
  have k: "k \<noteq> - 1" using assms(2) by simp
  show ?thesis
    using k by (simp add: read_record_def get_char_action [OF assms(1)] gi gl mk_Move_def Let_def)
qed

lemma action_not_space: "\<not> isspace ADD" "\<not> isspace REMOVE"
  by (simp_all add: isspace_def ADD_def REMOVE_def)

lemma read_records_serialized:
  "(\<forall>m\<in>set ms. (m_action m = ADD \<or> m_action m = REMOVE) \<and> 0 \<le> m_n m \<and> m_n m \<le> INT_MAX \<and>
      CHR 0x0A \<notin> set (m_line m)) \<Longrightarrow>
   read_records u path row (map serialize_move ms) st = st\<lparr>patch := patch st @ ms\<rparr>"
proof (induction ms arbitrary: row st)
  case Nil
  then show ?case by simp
next
  case (Cons m ms)
  have m: "(m_action m = ADD \<or> m_action m = REMOVE)" "0 \<le> m_n m" "m_n m \<le> INT_MAX"
    "CHR 0x0A \<notin> set (m_line m)"
    using Cons.prems by auto
  have sp: "\<not> isspace (m_action m)"
    using m(1) action_not_space by auto
  have "read_record (u row) path row (serialize_move m) st =
          st\<lparr>patch := patch st @ [mk_Move (m_action m) (m_n m) (m_line m)]\<rparr>"
    unfolding serialize_move_def
    using read_record_format [OF sp m(2,3,4), of "u row" path row st] m(1) by simp
  moreover have "mk_Move (m_action m) (m_n m) (m_line m) = m"
    by (simp add: mk_Move_def)
  ultimately have r: "read_record (u row) path row (serialize_move m) st = st\<lparr>patch := patch st @ [m]\<rparr>"
    by simp
  have "read_records u path (Suc row) (map serialize_move ms) (st\<lparr>patch := patch st @ [m]\<rparr>) =
          (st\<lparr>patch := patch st @ [m]\<rparr>)\<lparr>patch := patch (st\<lparr>patch := patch st @ [m]\<rparr>) @ ms\<rparr>"
    using Cons.prems by (intro Cons.IH) auto
  then show ?case
    by (simp add: r)
qed

lemma walk_serializable:
  assumes "\<forall>l\<in>set S \<union> set D. CHR 0x0A \<notin> set l"
    and "int (length S) \<le> INT_MAX" and "int (length D) \<le> INT_MAX"
    and "m \<in> set (walk S D (length S) (length D))"
  shows "(m_action m = ADD \<or> m_action m = REMOVE) \<and> 0 \<le> m_n m \<and> m_n m \<le> INT_MAX \<and>
      CHR 0x0A \<notin> set (m_line m)"
proof -
  note b = walk_bounds [OF assms(4)]
  from walk_actions [OF assms(4)] show ?thesis
  proof
    assume a: "m_action m = ADD"
    with b have n: "0 \<le> m_n m" "m_n m < int (length D)" "m_line m = D ! nat (m_n m)"
      by auto
    then have "m_line m \<in> set D" by (simp add: nat_less_iff)
    with a n assms(1,3) show ?thesis by auto
  next
    assume a: "m_action m = REMOVE"
    with b have n: "0 \<le> m_n m" "m_n m < int (length S)" "m_line m = S ! nat (m_n m)"
      by auto
    then have "m_line m \<in> set S" by (simp add: nat_less_iff)
    with a n assms(1,2) show ?thesis by auto
  qed
qed

section \<open>The sorted patch\<close>

text \<open>
  \<open>sort_moves\<close> is the insertion sort on \<open>move_key\<close>, and for a patch in which no two
  records have the same position and action every arrangement that the comparator
  accepts as sorted is the one \<open>sort_moves\<close> returns: for such a patch the model does not
  depend on the sorting algorithm.
\<close>

lemma char_value_range: "- 128 \<le> char_value c \<and> char_value c < 128"
proof -
  have "(of_char c :: int) = int (of_char c)"
    by (rule of_nat_of_char [symmetric])
  moreover have "(of_char c :: nat) < 256"
    by simp
  ultimately have "0 \<le> (of_char c :: int) \<and> (of_char c :: int) < 256"
    by simp
  then show ?thesis
    by (auto simp: char_value_def Let_def)
qed

lemma move_less_key: "move_less p q \<longleftrightarrow> move_key p < move_key q"
  using char_value_range [of "m_action p"] char_value_range [of "m_action q"]
  by (auto simp: move_less_def move_key_def)

lemma insert_move_insort: "insert_move p qs = insort_key move_key p qs"
  by (induction qs) (auto simp: move_less_key)

lemma sort_moves_sort_key: "sort_moves ps = sort_key move_key ps"
  by (induction ps) (simp_all add: insert_move_insort sort_key_def)

lemma sort_moves_unique:
  assumes keys: "distinct (map move_key xs)"
    and perm: "set ys = set xs" "length ys = length xs"
    and sorted: "sorted_wrt (\<lambda>p q. \<not> move_less q p) ys"
  shows "ys = sort_moves xs"
proof -
  have inj: "inj_on move_key (set xs)" and dx: "distinct xs"
    using keys by (simp_all add: distinct_map)
  have "card (set ys) = length ys"
    using perm distinct_card [OF dx] by simp
  then have dy: "distinct ys"
    by (rule card_distinct)
  have 1: "sorted (map move_key ys)"
    using sorted by (simp add: sorted_map move_less_key not_less)
  have 2: "distinct (map move_key ys)"
    using dy inj perm by (simp add: distinct_map)
  let ?zs = "sort_key move_key xs"
  have 3: "sorted (map move_key ?zs)" by simp
  have 4: "distinct (map move_key ?zs)"
    using dx inj by (simp add: distinct_map)
  have 5: "set (map move_key ys) = set (map move_key ?zs)"
    using perm by simp
  have m: "map move_key ys = map move_key ?zs"
    by (rule sorted_distinct_set_unique [OF 1 2 3 4 5])
  have "inj_on move_key (set ys \<union> set ?zs)"
    using inj perm by simp
  then have "ys = ?zs"
    using m by (simp add: inj_on_map_eq_map)
  then show ?thesis
    by (simp add: sort_moves_sort_key)
qed

section \<open>The claims\<close>

subsection \<open>Round trip of diff and patch\<close>

text \<open>
  C1. Applying the patch that \<open>edit_distance\<close> computes for \<open>S\<close> and \<open>D\<close> to \<open>S\<close>, by
  sorting it on position and action and running it from the highest position down,
  is meant to give \<open>D\<close>. For \<open>S = [a, b]\<close> and \<open>D = [x, y, a, b]\<close> the patch is the two
  insertions at the positions \<open>0\<close> and \<open>1\<close> of \<open>D\<close>; run from the highest position
  down on \<open>S\<close>, they give \<open>[x, a, y, b]\<close>, which is not \<open>D\<close>.
\<close>

theorem C1_round_trip_fails:
  "edit_distance [''a'', ''b''] [''x'', ''y'', ''a'', ''b''] =
     Inr [mk_Move ADD 0 ''x'', mk_Move ADD 1 ''y''] \<and>
   apply_patch [''a'', ''b''] [mk_Move ADD 0 ''x'', mk_Move ADD 1 ''y''] =
     Inr [''x'', ''a'', ''y'', ''b''] \<and>
   [''x'', ''a'', ''y'', ''b''] \<noteq> [''x'', ''y'', ''a'', ''b''] \<and>
   diff_output [''a'', ''b''] [''x'', ''y'', ''a'', ''b''] = Inr [''+ 0 x'', ''+ 1 y''] \<and>
   patch_run u ''f.patch'' [''a'', ''b''] [''+ 0 x'', ''+ 1 y''] =
     Inr \<lparr>returned = 0, stdout = [''x'', ''a'', ''y'', ''b''],
          written = Some [''x'', ''a'', ''y'', ''b'']\<rparr>"
  by code_simp

text \<open>
  C2. Every position of a computed patch is meant to be a valid index of the working
  sequence when the operation is run. For the empty \<open>S\<close> and \<open>D = [x, y]\<close> the first
  operation run is the insertion at position \<open>1\<close>, into a sequence of length \<open>0\<close>.
\<close>

theorem C2_insert_out_of_range:
  "edit_distance [] [''x'', ''y''] = Inr [mk_Move ADD 0 ''x'', mk_Move ADD 1 ''y''] \<and>
   rev (sort_moves [mk_Move ADD 0 ''x'', mk_Move ADD 1 ''y'']) =
     [mk_Move ADD 1 ''y'', mk_Move ADD 0 ''x''] \<and>
   insert_at [] 1 ''y'' = Inl OutOfRange \<and>
   apply_patch [] [mk_Move ADD 0 ''x'', mk_Move ADD 1 ''y''] = Inl OutOfRange \<and>
   patch_run u ''f.patch'' [] [''+ 0 x'', ''+ 1 y''] = Inl OutOfRange"
  by code_simp

subsection \<open>Validation of the patch file\<close>

text \<open>
  C3. A patch file with one record whose position is not a number is meant to be refused
  with one error for that line. The patch file \<open>- 1 b\<close>, \<open>+ abc hello\<close> is read without
  any error: the second record becomes an insertion of the empty line at position \<open>0\<close>,
  and the patch is applied to \<open>[a, b]\<close>. With the letters \<open>R\<close> and \<open>A\<close> for the actions, both
  records are reported, the one with a position that is a number as well.
\<close>

theorem C3_bad_position_accepted:
  "patch_run u ''f.patch'' [''a'', ''b''] [''- 1 b'', ''+ abc hello''] =
     Inr \<lparr>returned = 0, stdout = ['''', ''a''], written = Some ['''', ''a'']\<rparr> \<and>
   patch_run u ''f.patch'' [''a'', ''b''] [''R 1 b'', ''A abc hello''] =
     Inr \<lparr>returned = - 1,
          stdout = [''f.patch:1: Invalid patch action: R 1 b'',
                    ''f.patch:2: Invalid patch action: A abc hello''],
          written = None\<rparr>"
  by code_simp

text \<open>
  C4, as stated: the diff subcommand writes an insertion with the action \<open>+\<close>, not \<open>A\<close>,
  and the record \<open>A 0 x\<close> is reported as malformed.
\<close>

theorem C4_counterexample:
  "diff_output [] [''x''] = Inr [''+ 0 x''] \<and>
   read_patch (\<lambda>row. CHR ''?'') ''f.patch'' [''A 0 x''] =
     \<lparr>ok = False, patch = [], printed = [''f.patch:1: Invalid patch action: A 0 x'']\<rparr>"
  by code_simp

text \<open>
  C4, amended. The action of a record is \<open>+\<close> for an insertion and \<open>-\<close> for a deletion.
  The diff subcommand writes every operation as the action, a space, the decimal
  position, a space and the line, and its operations are insertions and deletions at
  positions that are not negative. A record of that form whose position is a decimal
  number between \<open>0\<close> and \<open>INT_MAX\<close> is stored, with its action, position and line,
  when its action is \<open>+\<close> or \<open>-\<close>, and is reported as malformed when its action is any
  other character. Nothing is said of a record whose position is not such a number.
\<close>

theorem C4_record_format:
  "ADD = CHR ''+'' \<and> REMOVE = CHR ''-'' \<and>
   serialize_move m = [m_action m] @ '' '' @ to_string (m_n m) @ '' '' @ m_line m \<and>
   (\<exists>p. diff_output S D = Inr (map serialize_move p) \<and>
        (\<forall>m\<in>set p. (m_action m = ADD \<or> m_action m = REMOVE) \<and> 0 \<le> m_n m)) \<and>
   (\<not> isspace a \<and> 0 \<le> k \<and> k \<le> INT_MAX \<and> CHR 0x0A \<notin> set c \<longrightarrow>
      read_record u path row ([a] @ '' '' @ to_string k @ '' '' @ c) st =
        (if a = ADD \<or> a = REMOVE
         then st\<lparr>patch := patch st @ [\<lparr>m_action = a, m_n = k, m_line = c\<rparr>]\<rparr>
         else st\<lparr>printed := printed st @
                    [path @ '':'' @ to_string (int row + 1) @ '': Invalid patch action: '' @
                     ([a] @ '' '' @ to_string k @ '' '' @ c)],
                 ok := False\<rparr>))"
proof -
  let ?p = "rev (walk S D (length S) (length D))"
  have "\<forall>m\<in>set ?p. (m_action m = ADD \<or> m_action m = REMOVE) \<and> 0 \<le> m_n m"
    using walk_actions [of _ S D "length S" "length D"] walk_bounds [of _ S D "length S" "length D"]
    by auto
  then have "\<exists>p. diff_output S D = Inr (map serialize_move p) \<and>
        (\<forall>m\<in>set p. (m_action m = ADD \<or> m_action m = REMOVE) \<and> 0 \<le> m_n m)"
    by (intro exI [of _ ?p]) (simp add: diff_output_def edit_distance_walk)
  then show ?thesis
    using read_record_format [of a k c u path row st]
    by (simp add: serialize_move_def ADD_def REMOVE_def mk_Move_def)
qed

theorem C4_record_format_witness:
  "ADD = CHR ''+'' \<and> REMOVE = CHR ''-'' \<and>
   serialize_move \<lparr>m_action = CHR ''+'', m_n = 1, m_line = ''x''\<rparr> = ''+ 1 x'' \<and>
   diff_output [''a'', ''b'', ''c''] [''a'', ''x'', ''c''] = Inr [''+ 1 x'', ''- 1 b''] \<and>
   read_record (CHR ''?'') ''f.patch'' 0 ''- 1 b'' \<lparr>ok = True, patch = [], printed = []\<rparr> =
     \<lparr>ok = True, patch = [\<lparr>m_action = CHR ''-'', m_n = 1, m_line = ''b''\<rparr>], printed = []\<rparr> \<and>
   read_record (CHR ''?'') ''f.patch'' 0 ''R 1 b'' \<lparr>ok = True, patch = [], printed = []\<rparr> =
     \<lparr>ok = False, patch = [], printed = [''f.patch:1: Invalid patch action: R 1 b'']\<rparr>"
proof -
  note t = C4_record_format [where m = "\<lparr>m_action = CHR ''+'', m_n = 1, m_line = ''x''\<rparr>"
        and S = "[''a'', ''b'', ''c'']" and D = "[''a'', ''x'', ''c'']" and u = "CHR ''?''"
        and path = "''f.patch''" and row = 0
        and st = "\<lparr>ok = True, patch = [], printed = []\<rparr>" and k = 1 and c = "''b''"]
  have b: "\<not> isspace CHR ''R'' \<and> (0::int) \<le> 1 \<and> 1 \<le> INT_MAX \<and> CHR 0x0A \<notin> set ''b''"
    by (simp add: isspace_def INT_MAX_def)
  have b': "\<not> isspace CHR ''-'' \<and> (0::int) \<le> 1 \<and> 1 \<le> INT_MAX \<and> CHR 0x0A \<notin> set ''b''"
    by (simp add: isspace_def INT_MAX_def)
  have s1: "to_string 1 = ''1''"
    by code_simp
  have s2: "to_string (int 0 + 1) = ''1''"
    by code_simp
  have s3: "diff_output [''a'', ''b'', ''c''] [''a'', ''x'', ''c''] = Inr [''+ 1 x'', ''- 1 b'']"
    by code_simp
  have r: "CHR ''R'' \<noteq> ADD \<and> CHR ''R'' \<noteq> REMOVE"
    by (simp add: ADD_def REMOVE_def)
  have r': "CHR ''-'' = REMOVE"
    by (simp add: REMOVE_def)
  note c5 = t [where a = "CHR ''-''", THEN conjunct2, THEN conjunct2, THEN conjunct2, THEN conjunct2,
      THEN mp, OF b']
  from c5
  have "read_record (CHR ''?'') ''f.patch'' 0 ([CHR ''-''] @ '' '' @ to_string 1 @ '' '' @ ''b'')
          \<lparr>ok = True, patch = [], printed = []\<rparr> =
        \<lparr>ok = True, patch = [], printed = []\<rparr>\<lparr>patch := patch \<lparr>ok = True, patch = [], printed = []\<rparr> @
                    [\<lparr>m_action = CHR ''-'', m_n = 1, m_line = ''b''\<rparr>]\<rparr>"
    using r' by (simp only: if_True simp_thms)
  then have w1: "read_record (CHR ''?'') ''f.patch'' 0 ''- 1 b'' \<lparr>ok = True, patch = [], printed = []\<rparr> =
     \<lparr>ok = True, patch = [\<lparr>m_action = CHR ''-'', m_n = 1, m_line = ''b''\<rparr>], printed = []\<rparr>"
    unfolding s1 by simp
  note c6 = t [where a = "CHR ''R''", THEN conjunct2, THEN conjunct2, THEN conjunct2, THEN conjunct2,
      THEN mp, OF b]
  from c6
  have "read_record (CHR ''?'') ''f.patch'' 0 ([CHR ''R''] @ '' '' @ to_string 1 @ '' '' @ ''b'')
          \<lparr>ok = True, patch = [], printed = []\<rparr> =
        \<lparr>ok = True, patch = [], printed = []\<rparr>\<lparr>printed := printed \<lparr>ok = True, patch = [], printed = []\<rparr> @
                    [''f.patch'' @ '':'' @ to_string (int 0 + 1) @ '': Invalid patch action: '' @
                     ([CHR ''R''] @ '' '' @ to_string 1 @ '' '' @ ''b'')],
                 ok := False\<rparr>"
    using r by (simp only: if_False simp_thms)
  then have w2: "read_record (CHR ''?'') ''f.patch'' 0 ''R 1 b'' \<lparr>ok = True, patch = [], printed = []\<rparr> =
     \<lparr>ok = False, patch = [], printed = [''f.patch:1: Invalid patch action: R 1 b'']\<rparr>"
    unfolding s1 s2 by simp
  have w3: "serialize_move \<lparr>m_action = CHR ''+'', m_n = 1, m_line = ''x''\<rparr> = ''+ 1 x''"
    by code_simp
  show ?thesis
    using w1 w2 w3 s3 by (simp add: ADD_def REMOVE_def)
qed

text \<open>
  C10. The record \<open>x -1 text\<close> has an action that is neither \<open>ADD\<close> nor \<open>REMOVE\<close>
  and the position \<open>-1\<close>. The reading loop accepts it, since the test for a malformed
  record also asks for a position other than \<open>-1\<close>, and the applying loop then reaches
  its \<open>assert(false)\<close>, whatever the file to patch holds.
\<close>

theorem C10_assertion_reachable:
  "CHR ''x'' \<noteq> ADD \<and> CHR ''x'' \<noteq> REMOVE \<and>
   read_patch u path [''x -1 text''] =
     \<lparr>ok = True, patch = [mk_Move (CHR ''x'') (- 1) ''text''], printed = []\<rparr> \<and>
   patch_run u path lines1 [''x -1 text''] = Inl Unreachable"
  by (simp add: patch_run_def read_patch_def read_record_def get_char_def get_int_def isspace_def
      isdigit_def Let_def mk_Move_def ADD_def REMOVE_def digits_value_def INT_MAX_def INT_MIN_def
      getline_def strip_separator_def apply_patch_def)

subsection \<open>The computed patch\<close>

text \<open>
  C5. \<open>edit_distance\<close> always returns a patch; the number of its operations is the
  insert/delete-only edit distance \<open>lev\<close> of the two sequences, and each operation is an
  insertion (\<open>ADD\<close>) or a deletion (\<open>REMOVE\<close>), never a substitution.
\<close>

theorem C5_minimal_length:
  "\<exists>p. edit_distance S D = Inr p \<and> length p = lev S D \<and>
       (\<forall>m\<in>set p. m_action m = ADD \<or> m_action m = REMOVE)"
proof -
  let ?p = "rev (walk S D (length S) (length D))"
  have "int (length ?p) = int (lev S D)"
    by (simp add: walk_length cost_final)
  then have "length ?p = lev S D" by (simp only: of_nat_eq_iff)
  moreover have "\<forall>m\<in>set ?p. m_action m = ADD \<or> m_action m = REMOVE"
    using walk_actions by auto
  ultimately show ?thesis
    using edit_distance_walk [of S D] by blast
qed

theorem C5_minimal_length_witness:
  "edit_distance [''a'', ''b'', ''c''] [''a'', ''x'', ''c''] =
     Inr [mk_Move ADD 1 ''x'', mk_Move REMOVE 1 ''b''] \<and>
   lev [''a'', ''b'', ''c''] [''a'', ''x'', ''c''] = 2 \<and>
   m_action (mk_Move ADD 1 ''x'') = ADD \<and> m_action (mk_Move REMOVE 1 ''b'') = REMOVE"
proof -
  have e: "edit_distance [''a'', ''b'', ''c''] [''a'', ''x'', ''c''] =
     Inr [mk_Move ADD 1 ''x'', mk_Move REMOVE 1 ''b'']"
    by code_simp
  from C5_minimal_length [of "[''a'', ''b'', ''c'']" "[''a'', ''x'', ''c'']"] e
  have "lev [''a'', ''b'', ''c''] [''a'', ''x'', ''c''] = 2"
    by auto
  with e show ?thesis by (simp add: mk_Move_def)
qed

text \<open>
  C6. In the tables that the loops leave, at a cell \<open>[i][j]\<close> with \<open>i, j > 0\<close> whose two
  lines differ: when the cost of deleting, \<open>distances[i-1][j]\<close>, equals the cost of
  inserting, \<open>distances[i][j-1]\<close>, the cell is tagged \<open>REMOVE\<close>; it is tagged \<open>ADD\<close>
  exactly when inserting is strictly cheaper, and \<open>REMOVE\<close> exactly when it is not.
\<close>

theorem C6_tie_break:
  assumes "fill_tables src dst = (distances, actions)"
    and "0 < i" and "i \<le> length src" and "0 < j" and "j \<le> length dst"
    and "src ! (i - 1) \<noteq> dst ! (j - 1)"
  shows "(tab_get distances (i - 1) j = tab_get distances i (j - 1) \<longrightarrow>
            tab_get actions i j = REMOVE) \<and>
         (tab_get actions i j = ADD \<longleftrightarrow>
            tab_get distances i (j - 1) < tab_get distances (i - 1) j) \<and>
         (tab_get actions i j = REMOVE \<longleftrightarrow>
            tab_get distances (i - 1) j \<le> tab_get distances i (j - 1))"
proof -
  obtain i0 j0 where ij: "i = Suc i0" "j = Suc j0"
    using assms(2,4) by (metis Suc_pred)
  have "tab_get distances (i - 1) j = cost src dst i0 (Suc j0)"
    "tab_get distances i (j - 1) = cost src dst (Suc i0) j0"
    "tab_get actions i j = tag src dst (Suc i0) (Suc j0)"
    using fill_tables_cells [OF assms(1)] assms(3,5) by (simp_all add: ij)
  then show ?thesis
    using assms(6) by (auto simp: ij actions_distinct)
qed

theorem C6_tie_break_witness:
  "fill_tables [''a'', ''b'', ''c''] [''a'', ''x'', ''c''] =
     ([[0, 1, 2, 3], [1, 0, 1, 2], [2, 1, 2, 3], [3, 2, 3, 2]],
      [''=+++'', ''-=++'', ''----'', ''---='']) \<and>
   [''a'', ''b'', ''c''] ! (2 - 1) \<noteq> [''a'', ''x'', ''c''] ! (2 - 1) \<and>
   tab_get [[0, 1, 2, 3], [1, 0, 1, 2], [2, 1, 2, 3], [3, 2, 3, 2 :: int]] (2 - 1) 2 =
   tab_get [[0, 1, 2, 3], [1, 0, 1, 2], [2, 1, 2, 3], [3, 2, 3, 2 :: int]] 2 (2 - 1) \<and>
   tab_get [''=+++'', ''-=++'', ''----'', ''---=''] 2 2 = REMOVE"
proof -
  have f: "fill_tables [''a'', ''b'', ''c''] [''a'', ''x'', ''c''] =
     ([[0, 1, 2, 3], [1, 0, 1, 2], [2, 1, 2, 3], [3, 2, 3, 2]],
      [''=+++'', ''-=++'', ''----'', ''---=''])"
    by code_simp
  have d: "[''a'', ''b'', ''c''] ! (2 - 1) \<noteq> [''a'', ''x'', ''c''] ! (2 - 1)"
    by simp
  have t: "tab_get [[0, 1, 2, 3], [1, 0, 1, 2], [2, 1, 2, 3], [3, 2, 3, 2 :: int]] (2 - 1) 2 =
   tab_get [[0, 1, 2, 3], [1, 0, 1, 2], [2, 1, 2, 3], [3, 2, 3, 2 :: int]] 2 (2 - 1)"
    by (simp add: tab_get_def)
  from C6_tie_break [OF f _ _ _ _ d] t f d show ?thesis
    by simp
qed

text \<open>
  C7. From the empty sequence to \<open>D\<close> the patch is the \<open>|D|\<close> insertions of the lines of
  \<open>D\<close> at the positions \<open>0, \<dots>, |D| - 1\<close>; from \<open>S\<close> to the empty sequence it is the
  \<open>|S|\<close> deletions at the positions \<open>0, \<dots>, |S| - 1\<close>, each carrying the line it
  deletes; from \<open>S\<close> to \<open>S\<close> it is empty. The operations are given field by field.
\<close>

theorem C7_empty_and_identity:
  "edit_distance [] D =
     Inr (map (\<lambda>j. \<lparr>m_action = CHR ''+'', m_n = int j, m_line = D ! j\<rparr>) [0..<length D]) \<and>
   edit_distance S [] =
     Inr (map (\<lambda>i. \<lparr>m_action = CHR ''-'', m_n = int i, m_line = S ! i\<rparr>) [0..<length S]) \<and>
   edit_distance S S = Inr [] \<and>
   edit_distance [] [''x'', ''y''] =
     Inr [\<lparr>m_action = CHR ''+'', m_n = 0, m_line = ''x''\<rparr>,
          \<lparr>m_action = CHR ''+'', m_n = 1, m_line = ''y''\<rparr>] \<and>
   edit_distance [''x'', ''y''] [] =
     Inr [\<lparr>m_action = CHR ''-'', m_n = 0, m_line = ''x''\<rparr>,
          \<lparr>m_action = CHR ''-'', m_n = 1, m_line = ''y''\<rparr>]"
proof -
  have 1: "edit_distance [] D =
     Inr (map (\<lambda>j. \<lparr>m_action = CHR ''+'', m_n = int j, m_line = D ! j\<rparr>) [0..<length D])"
    using walk_first_row [of D "length D"]
    by (simp add: edit_distance_walk mk_Move_def ADD_def)
  have 2: "edit_distance S [] =
     Inr (map (\<lambda>i. \<lparr>m_action = CHR ''-'', m_n = int i, m_line = S ! i\<rparr>) [0..<length S])"
    using walk_first_col [of S "length S"]
    by (simp add: edit_distance_walk mk_Move_def REMOVE_def)
  have 3: "edit_distance S S = Inr []"
    by (simp add: edit_distance_walk walk_diagonal)
  have 4: "edit_distance [] [''x'', ''y''] =
     Inr [\<lparr>m_action = CHR ''+'', m_n = 0, m_line = ''x''\<rparr>,
          \<lparr>m_action = CHR ''+'', m_n = 1, m_line = ''y''\<rparr>]"
    by code_simp
  have 5: "edit_distance [''x'', ''y''] [] =
     Inr [\<lparr>m_action = CHR ''-'', m_n = 0, m_line = ''x''\<rparr>,
          \<lparr>m_action = CHR ''-'', m_n = 1, m_line = ''y''\<rparr>]"
    by code_simp
  from 1 2 3 4 5 show ?thesis by (intro conjI)
qed

text \<open>
  C9, as stated: in the patch from \<open>[p, q, r, a]\<close> to \<open>[a, t]\<close> the deletion at position
  \<open>2\<close> comes right before the insertion at position \<open>1\<close>.
\<close>

theorem C9_counterexample:
  "edit_distance [''p'', ''q'', ''r'', ''a''] [''a'', ''t''] =
     Inr [mk_Move REMOVE 0 ''p'', mk_Move REMOVE 1 ''q'', mk_Move REMOVE 2 ''r'',
          mk_Move ADD 1 ''t''] \<and>
   \<not> m_n (mk_Move REMOVE 2 ''r'') \<le> m_n (mk_Move ADD 1 ''t'')"
  by code_simp

text \<open>
  C9, amended. Deletions carry positions of the source and insertions positions of the
  destination. In the returned patch the positions of the insertions, in the order of
  the patch, are strictly ascending, and so are the positions of the deletions.
\<close>

theorem C9_positions_per_action:
  "\<exists>p. edit_distance S D = Inr p \<and>
       sorted_wrt (<) (map m_n (filter (\<lambda>m. m_action m = ADD) p)) \<and>
       sorted_wrt (<) (map m_n (filter (\<lambda>m. m_action m = REMOVE) p))"
  using walk_descending [of S D "length S" "length D"]
  by (simp add: edit_distance_walk rev_filter [symmetric] rev_map [symmetric] sorted_wrt_rev_gt)

subsection \<open>The text form of a computed patch\<close>

text \<open>
  C8. For sequences of lines without a newline character and of lengths that fit an
  \<open>int\<close>, reading back the records that the diff subcommand writes gives the computed
  patch: no record is reported, and every operation comes back with its action, its
  position and its line, leading spaces of the line included. The operations come back
  in the order written, so the two patches are equal as sets as well.
\<close>

theorem C8_serialization_round_trip:
  assumes "\<forall>l\<in>set S \<union> set D. CHR 0x0A \<notin> set l"
    and "int (length S) \<le> INT_MAX" and "int (length D) \<le> INT_MAX"
  shows "\<exists>p. edit_distance S D = Inr p \<and>
           diff_output S D = Inr (map serialize_move p) \<and>
           read_patch u path (map serialize_move p) = \<lparr>ok = True, patch = p, printed = []\<rparr> \<and>
           set (patch (read_patch u path (map serialize_move p))) = set p"
proof -
  let ?p = "rev (walk S D (length S) (length D))"
  have "\<forall>m\<in>set ?p. (m_action m = ADD \<or> m_action m = REMOVE) \<and> 0 \<le> m_n m \<and> m_n m \<le> INT_MAX \<and>
      CHR 0x0A \<notin> set (m_line m)"
    using walk_serializable [OF assms] by simp
  then have "read_patch u path (map serialize_move ?p) = \<lparr>ok = True, patch = ?p, printed = []\<rparr>"
    unfolding read_patch_def by (subst read_records_serialized) simp_all
  then show ?thesis
    by (intro exI [of _ ?p]) (simp add: edit_distance_walk diff_output_def)
qed

theorem C8_serialization_round_trip_witness:
  "int (length [''a'', ''b'', ''c'']) \<le> INT_MAX \<and> int (length [''a'', ''  x'', ''c'']) \<le> INT_MAX \<and>
   diff_output [''a'', ''b'', ''c''] [''a'', ''  x'', ''c''] = Inr [''+ 1   x'', ''- 1 b''] \<and>
   read_patch (\<lambda>row. CHR ''?'') ''f.patch'' [''+ 1   x'', ''- 1 b''] =
     \<lparr>ok = True, patch = [mk_Move ADD 1 ''  x'', mk_Move REMOVE 1 ''b''], printed = []\<rparr>"
proof -
  have h: "\<forall>l\<in>set [''a'', ''b'', ''c''] \<union> set [''a'', ''  x'', ''c'']. CHR 0x0A \<notin> set l"
    "int (length [''a'', ''b'', ''c'']) \<le> INT_MAX" "int (length [''a'', ''  x'', ''c'']) \<le> INT_MAX"
    by (simp_all add: INT_MAX_def)
  have e: "edit_distance [''a'', ''b'', ''c''] [''a'', ''  x'', ''c''] =
      Inr [mk_Move ADD 1 ''  x'', mk_Move REMOVE 1 ''b'']"
    by code_simp
  have s: "map serialize_move [mk_Move ADD 1 ''  x'', mk_Move REMOVE 1 ''b''] = [''+ 1   x'', ''- 1 b'']"
    by code_simp
  from C8_serialization_round_trip [OF h, of "\<lambda>row. CHR ''?''" "''f.patch''"] e s h(2,3)
  show ?thesis by auto
qed

end
